theory Spec2Isabelle
  imports Main "HOL-Library.Word"
begin

section \<open>The program: a SYCL tree reduction (sumOfNElements.cpp)\<close>

text \<open>
  The buffer holds C++ \<open>int\<close>s: 32-bit words, whose addition wraps around. Sizes, ids
  and indices are natural numbers: with \<open>work_group_size = 512\<close> and a buffer that
  fits in memory, the kernel's \<open>int\<close> ids and the host's \<open>size_t\<close> counts stay far
  below their limits.

  An access of \<open>global_mem\<close> or \<open>local_mem\<close> outside the accessor's range is
  undefined behaviour in the source; the model makes it an error value that names the
  accessor and the index.

  Every access of \<open>global_mem\<close> that succeeds is logged, in the order in which the model
  performs it.
\<close>

type_synonym i32 = "32 word"

datatype error = GlobalOutOfBounds nat | LocalOutOfBounds nat

datatype access = GRead nat | GWrite nat

subsection \<open>Running the work-items of one phase\<close>

text \<open>
  Between two barriers every work-item of a group runs the same piece of the kernel
  body. The model runs them one after the other, in the order of the given list of ids,
  and stops at the first error. Ascending order of the local ids, which \<open>run_group\<close>
  uses, is one of the schedules that the barriers allow.
\<close>

fun for_items :: "(nat \<Rightarrow> 's \<Rightarrow> error + 's) \<Rightarrow> nat list \<Rightarrow> 's \<Rightarrow> error + 's" where
  "for_items f [] s = Inr s"
| "for_items f (l # ls) s = (case f l s of Inl e \<Rightarrow> Inl e | Inr s' \<Rightarrow> for_items f ls s')"

subsection \<open>The kernel body (lines 85 to 116)\<close>

text \<open>
  Lines 88 to 98, up to the first barrier: the work-item clears its scratch cell and,
  when \<open>2 * global_id < iterationCount\<close>, stores the sum of the two buffer cells
  \<open>2 * global_id\<close> and \<open>2 * global_id + 1\<close> there. \<open>group_id\<close> is
  \<open>get_group_linear_id\<close>, so \<open>get_global_linear_id\<close> is
  \<open>group_id * work_group_size + local_id\<close>.
\<close>

definition load_item ::
  "nat \<Rightarrow> nat \<Rightarrow> i32 list \<Rightarrow> nat \<Rightarrow> nat \<Rightarrow> i32 list \<times> access list
    \<Rightarrow> error + i32 list \<times> access list" where
  "load_item work_group_size iterationCount global_mem group_id local_id st =
     (case st of (local_mem, tr) \<Rightarrow>
        let global_id = group_id * work_group_size + local_id in
        if \<not> local_id < length local_mem then Inl (LocalOutOfBounds local_id)
        else
          let local_mem = local_mem[local_id := 0] in
          if 2 * global_id < iterationCount then
            if \<not> 2 * global_id < length global_mem then Inl (GlobalOutOfBounds (2 * global_id))
            else if \<not> 2 * global_id + 1 < length global_mem
              then Inl (GlobalOutOfBounds (2 * global_id + 1))
            else Inr (local_mem[local_id := global_mem ! (2 * global_id) + global_mem ! (2 * global_id + 1)],
                      tr @ [GRead (2 * global_id), GRead (2 * global_id + 1)])
          else Inr (local_mem, tr))"

text \<open>
  Lines 103 to 106, one work-item in the stride \<open>i\<close>:
  \<open>index = 2 * i * local_id\<close>, and when \<open>index < work_group_size\<close> the cell
  \<open>index\<close> receives the sum of the cells \<open>index\<close> and \<open>index + i\<close>.
\<close>

definition reduce_item :: "nat \<Rightarrow> nat \<Rightarrow> nat \<Rightarrow> i32 list \<Rightarrow> error + i32 list" where
  "reduce_item work_group_size i local_id local_mem =
     (let index = 2 * i * local_id in
      if index < work_group_size then
        if \<not> index < length local_mem then Inl (LocalOutOfBounds index)
        else if \<not> index + i < length local_mem then Inl (LocalOutOfBounds (index + i))
        else Inr (local_mem[index := local_mem ! index + local_mem ! (index + i)])
      else Inr local_mem)"

text \<open>
  Lines 102 to 109: \<open>for (int i = 1; i < work_group_size; i *= 2)\<close>, with a barrier at
  the end of every round, so that all work-items finish the stride \<open>i\<close> before any
  starts the stride \<open>2 * i\<close>. The source starts at \<open>i = 1\<close>; the test \<open>0 < i\<close>
  only makes the function total for the start value 0, which the source never uses.
\<close>

function tree_loop :: "nat \<Rightarrow> nat \<Rightarrow> i32 list \<Rightarrow> error + i32 list" where
  "tree_loop work_group_size i local_mem =
     (if 0 < i \<and> i < work_group_size then
        (case for_items (reduce_item work_group_size i) [0..<work_group_size] local_mem of
           Inl e \<Rightarrow> Inl e
         | Inr local_mem' \<Rightarrow> tree_loop work_group_size (i * 2) local_mem')
      else Inr local_mem)"
  by pat_completeness auto
termination
  by (relation "measure (\<lambda>(g, i, s). g - i)") auto

text \<open>
  Lines 112 to 114: the work-item with \<open>local_id = 0\<close> stores \<open>local_mem[0]\<close> into
  the buffer cell of its group.
\<close>

definition write_item ::
  "i32 list \<Rightarrow> nat \<Rightarrow> nat \<Rightarrow> i32 list \<times> access list \<Rightarrow> error + i32 list \<times> access list" where
  "write_item local_mem group_id local_id st =
     (case st of (global_mem, tr) \<Rightarrow>
        if local_id = 0 then
          if \<not> 0 < length local_mem then Inl (LocalOutOfBounds 0)
          else if \<not> group_id < length global_mem then Inl (GlobalOutOfBounds group_id)
          else Inr (global_mem[group_id := local_mem ! 0], tr @ [GWrite group_id])
        else Inr (global_mem, tr))"

text \<open>
  One work-group: its \<open>work_group_size\<close> work-items run the three pieces of the body,
  separated by the barriers. The scratch accessor of line 80 has \<open>work_group_size\<close>
  cells; every work-item stores into its own cell before any cell is read, so the
  initial contents do not matter and are taken as 0. The result is the buffer after the
  group and the group's accesses of the buffer.
\<close>

definition run_group :: "nat \<Rightarrow> nat \<Rightarrow> i32 list \<Rightarrow> nat \<Rightarrow> error + i32 list \<times> access list" where
  "run_group work_group_size iterationCount global_mem group_id =
     (case for_items (load_item work_group_size iterationCount global_mem group_id)
             [0..<work_group_size] (replicate work_group_size 0, []) of
        Inl e \<Rightarrow> Inl e
      | Inr (local_mem, tr) \<Rightarrow>
          (case tree_loop work_group_size 1 local_mem of
             Inl e \<Rightarrow> Inl e
           | Inr local_mem' \<Rightarrow>
               for_items (write_item local_mem' group_id) [0..<work_group_size] (global_mem, tr)))"

subsection \<open>The kernel launch (lines 76 to 116)\<close>

text \<open>
  \<open>parallel_for\<close> over \<open>nd_range(work_group_size * work_group_count, work_group_size)\<close>
  runs the groups \<open>0, \<dots>, work_group_count - 1\<close>. SYCL fixes no order between
  work-groups; the model takes the order in which the groups run (each one to its end)
  as the argument \<open>order\<close>, a list that holds every group id once.
\<close>

definition group_step ::
  "nat \<Rightarrow> nat \<Rightarrow> nat \<Rightarrow> i32 list \<times> access list \<Rightarrow> error + i32 list \<times> access list" where
  "group_step work_group_size iterationCount group_id st =
     (case st of (global_mem, tr) \<Rightarrow>
        (case run_group work_group_size iterationCount global_mem group_id of
           Inl e \<Rightarrow> Inl e
         | Inr (global_mem', tr') \<Rightarrow> Inr (global_mem', tr @ tr')))"

definition parallel_for ::
  "nat \<Rightarrow> nat \<Rightarrow> nat list \<Rightarrow> i32 list \<Rightarrow> error + i32 list \<times> access list" where
  "parallel_for work_group_size iterationCount order global_mem =
     for_items (group_step work_group_size iterationCount) order (global_mem, [])"

definition valid_order :: "nat \<Rightarrow> nat list \<Rightarrow> bool" where
  "valid_order work_group_count order \<longleftrightarrow>
     distinct order \<and> set order = set [0..<work_group_count]"

subsection \<open>The host program (lines 26 to 131)\<close>

text \<open>Line 74: the number of work-groups, rounded up.\<close>

definition work_group_count :: "nat \<Rightarrow> nat \<Rightarrow> nat" where
  "work_group_count work_group_size iterationCount =
     (let double_work_group_size = work_group_size * 2
      in (iterationCount + double_work_group_size - 1) div double_work_group_size)"

text \<open>
  What a run of the host code does: the kernel launches it submits (each with its
  \<open>iterationCount\<close> and its number of work-groups), the value of \<open>iterationCount\<close>
  after line 122, and what line 128 prints as the sum (or the error of the run).
\<close>

record run =
  submitted :: "(nat \<times> nat) list"
  iterationCount_end :: nat
  printed :: "error + i32"

text \<open>
  Lines 62 to 128, for the array \<open>arr\<close> and the work-group size as a parameter
  (line 65 sets it to 512): one launch, the wait, the assignment to
  \<open>iterationCount\<close>, and the read of \<open>result[0]\<close>.
\<close>

definition main_body :: "nat \<Rightarrow> nat list \<Rightarrow> i32 list \<Rightarrow> run" where
  "main_body work_group_size order arr =
     (let iterationCount = length arr;
          wgc = work_group_count work_group_size iterationCount;
          swept = parallel_for work_group_size iterationCount order arr;
          iterationCount' = wgc
      in \<lparr> submitted = [(iterationCount, wgc)],
           iterationCount_end = iterationCount',
           printed = (case swept of
                        Inl e \<Rightarrow> Inl e
                      | Inr (result, tr) \<Rightarrow>
                          if 0 < length result then Inr (result ! 0) else Inl (GlobalOutOfBounds 0)) \<rparr>)"

text \<open>
  Lines 37 to 50: the array of \<open>N\<close> elements, \<open>i + 1\<close> at index \<open>i\<close> when \<open>N\<close> is
  even and \<open>i\<close> when \<open>N\<close> is odd.
\<close>

definition populate :: "nat \<Rightarrow> i32 list" where
  "populate N = map (\<lambda>i. if N mod 2 = 0 then of_nat (i + 1) else of_nat i) [0..<N]"

definition work_group_size :: nat where
  "work_group_size = 512"

text \<open>The program for the constant \<open>N\<close> of line 34; the source has \<open>N = 8\<close>.\<close>

definition main :: "nat \<Rightarrow> nat list \<Rightarrow> run" where
  "main N order = main_body work_group_size order (populate N)"

section \<open>Notions used in the statements and proofs\<close>

text \<open>
  None of the following is part of the program. \<open>pair_value\<close> is the value that a
  work-item with global id \<open>g\<close> leaves in its scratch cell before the first barrier
  when its reads are in range, and \<open>pair_reads\<close> are the reads it performs;
  \<open>loads_ok\<close> says that the reads of the first \<open>n\<close> work-items of a group are in
  range; \<open>stride_result\<close> is the scratch array after the first \<open>n\<close> work-items of
  one stride; \<open>seg S j n\<close> is the sum of the \<open>n\<close> cells of \<open>S\<close> from index \<open>j\<close>
  on; \<open>group_trace\<close> and \<open>group_sum\<close> are the accesses of one work-group and the
  value it writes back. \<open>no_read_after_write\<close> holds of a log of accesses when no cell
  is read after it has been written.
\<close>

definition pair_value :: "nat \<Rightarrow> i32 list \<Rightarrow> nat \<Rightarrow> i32" where
  "pair_value L B g = (if 2 * g < L then B ! (2 * g) + B ! (2 * g + 1) else 0)"

definition pair_reads :: "nat \<Rightarrow> nat \<Rightarrow> access list" where
  "pair_reads L g = (if 2 * g < L then [GRead (2 * g), GRead (2 * g + 1)] else [])"

definition loads_ok :: "nat \<Rightarrow> nat \<Rightarrow> i32 list \<Rightarrow> nat \<Rightarrow> nat \<Rightarrow> bool" where
  "loads_ok G L B w n \<longleftrightarrow> (\<forall>l<n. 2 * (w * G + l) < L \<longrightarrow> 2 * (w * G + l) + 1 < length B)"

definition stride_result :: "nat \<Rightarrow> nat \<Rightarrow> i32 list \<Rightarrow> nat \<Rightarrow> i32 list" where
  "stride_result G i S n =
     map (\<lambda>j. if 2 * i dvd j \<and> j < 2 * i * n then S ! j + S ! (j + i) else S ! j) [0..<G]"

definition seg :: "i32 list \<Rightarrow> nat \<Rightarrow> nat \<Rightarrow> i32" where
  "seg S j n = sum_list (take n (drop j S))"

definition group_trace :: "nat \<Rightarrow> nat \<Rightarrow> nat \<Rightarrow> access list" where
  "group_trace G L w =
     concat (map (\<lambda>l. pair_reads L (w * G + l)) [0..<G]) @ (if G = 0 then [] else [GWrite w])"

definition group_sum :: "nat \<Rightarrow> nat \<Rightarrow> i32 list \<Rightarrow> nat \<Rightarrow> i32" where
  "group_sum G L B w = sum_list (map (\<lambda>l. pair_value L B (w * G + l)) [0..<G])"

fun no_read_after_write :: "access list \<Rightarrow> bool" where
  "no_read_after_write [] = True"
| "no_read_after_write (GRead i # tr) = no_read_after_write tr"
| "no_read_after_write (GWrite i # tr) = (GRead i \<notin> set tr \<and> no_read_after_write tr)"

section \<open>Auxiliary lemmas\<close>

lemma for_items_append:
  "for_items f (xs @ ys) s = (case for_items f xs s of Inl e \<Rightarrow> Inl e | Inr s' \<Rightarrow> for_items f ys s')"
  by (induction xs arbitrary: s) (auto split: sum.splits)

lemma for_items_snoc:
  "for_items f [0..<Suc n] s = (case for_items f [0..<n] s of Inl e \<Rightarrow> Inl e | Inr s' \<Rightarrow> f n s')"
  by (simp add: for_items_append split: sum.splits)

lemma load_item_ok:
  assumes "l < length S" "2 * (w * G + l) < L \<longrightarrow> 2 * (w * G + l) + 1 < length B"
  shows "load_item G L B w l (S, tr) =
           Inr (S[l := pair_value L B (w * G + l)], tr @ pair_reads L (w * G + l))"
  using assms by (auto simp: load_item_def pair_value_def pair_reads_def Let_def)

lemma load_phase:
  assumes "loads_ok G L B w n" "n \<le> length S"
  shows "for_items (load_item G L B w) [0..<n] (S, tr) =
           Inr (map (\<lambda>l. pair_value L B (w * G + l)) [0..<n] @ drop n S,
                tr @ concat (map (\<lambda>l. pair_reads L (w * G + l)) [0..<n]))"
  using assms
proof (induction n)
  case 0
  then show ?case by simp
next
  case (Suc n)
  have ok: "loads_ok G L B w n" and last: "2 * (w * G + n) < L \<longrightarrow> 2 * (w * G + n) + 1 < length B"
    using Suc.prems(1) by (auto simp: loads_ok_def)
  have len: "n < length S" using Suc.prems(2) by simp
  let ?xs = "map (\<lambda>l. pair_value L B (w * G + l)) [0..<n]"
  have upd: "(?xs @ drop n S)[n := v] = ?xs @ [v] @ drop (Suc n) S" for v
    using len by (simp add: list_update_append Cons_nth_drop_Suc [symmetric] del: upt_Suc)
  show ?case
    using Suc.IH [OF ok] len last
    by (simp add: for_items_snoc load_item_ok upd del: upt_Suc) simp
qed

lemma stride_in_range:
  fixes i l G :: nat
  assumes "0 < i" "2 * i dvd G" "2 * i * l < G"
  shows "2 * i * l + i < G"
proof -
  from assms(2) obtain q where q: "G = 2 * i * q" by (auto simp: dvd_def)
  with assms(1,3) have "l < q" by simp
  then have "Suc l \<le> q" by simp
  then have "2 * i * Suc l \<le> 2 * i * q" by (rule mult_le_mono2)
  with q assms(1) show ?thesis by simp
qed

lemma reduce_item_ok:
  assumes "length S = G" "0 < i" "2 * i dvd G"
  shows "reduce_item G i l S =
           Inr (if 2 * i * l < G then S[2 * i * l := S ! (2 * i * l) + S ! (2 * i * l + i)] else S)"
  using assms stride_in_range [of i G l]
  by (simp add: reduce_item_def Let_def)

lemma not_dvd_half_step:
  fixes i n :: nat
  assumes "0 < i"
  shows "\<not> 2 * i dvd 2 * i * n + i"
proof
  assume "2 * i dvd 2 * i * n + i"
  then have "2 * i dvd i" by (simp add: dvd_add_right_iff)
  then have "2 * i \<le> i" using assms by (auto dest: dvd_imp_le)
  with assms show False by simp
qed

lemma multiple_between:
  fixes i n j :: nat
  assumes "2 * i dvd j" "2 * i * n \<le> j" "j < 2 * i * Suc n"
  shows "j = 2 * i * n"
proof -
  from assms(1) obtain q where q: "j = 2 * i * q" by (auto simp: dvd_def)
  have "0 < i" using assms(2,3) by (cases i) auto
  from q assms(2,3) have "(2 * i) * n \<le> (2 * i) * q" "(2 * i) * q < (2 * i) * Suc n" by simp_all
  with \<open>0 < i\<close> have "n \<le> q" "q < Suc n"
    unfolding mult_le_cancel1 mult_less_cancel1 by simp_all
  with q show ?thesis by simp
qed

lemma stride_phase:
  assumes "length S = G" "0 < i" "2 * i dvd G"
  shows "for_items (reduce_item G i) [0..<n] S = Inr (stride_result G i S n)"
proof (induction n)
  case 0
  have "stride_result G i S 0 = S"
    using assms(1) by (auto simp: stride_result_def intro: nth_equalityI)
  then show ?case by simp
next
  case (Suc n)
  let ?Sn = "stride_result G i S n"
  have len: "length ?Sn = G" by (simp add: stride_result_def)
  have step: "reduce_item G i n ?Sn =
      Inr (if 2 * i * n < G then ?Sn[2 * i * n := ?Sn ! (2 * i * n) + ?Sn ! (2 * i * n + i)] else ?Sn)"
    by (rule reduce_item_ok [OF len assms(2,3)])
  have "(if 2 * i * n < G then ?Sn[2 * i * n := ?Sn ! (2 * i * n) + ?Sn ! (2 * i * n + i)] else ?Sn)
          = stride_result G i S (Suc n)"
  proof (cases "2 * i * n < G")
    case True
    have r: "2 * i * n + i < G" by (rule stride_in_range [OF assms(2,3) True])
    have a: "?Sn ! (2 * i * n) = S ! (2 * i * n)"
      using True by (simp add: stride_result_def)
    have b: "?Sn ! (2 * i * n + i) = S ! (2 * i * n + i)"
      using r not_dvd_half_step [OF assms(2), of n] by (simp add: stride_result_def)
    have "?Sn[2 * i * n := S ! (2 * i * n) + S ! (2 * i * n + i)] = stride_result G i S (Suc n)"
    proof (rule nth_equalityI)
      show "length (?Sn[2 * i * n := S ! (2 * i * n) + S ! (2 * i * n + i)])
              = length (stride_result G i S (Suc n))"
        by (simp add: stride_result_def)
    next
      fix j assume "j < length (?Sn[2 * i * n := S ! (2 * i * n) + S ! (2 * i * n + i)])"
      then have j: "j < G" by (simp add: stride_result_def)
      show "?Sn[2 * i * n := S ! (2 * i * n) + S ! (2 * i * n + i)] ! j
              = stride_result G i S (Suc n) ! j"
      proof (cases "j = 2 * i * n")
        case True
        then show ?thesis using j assms(2) by (simp add: stride_result_def)
      next
        case False
        then have "(2 * i dvd j \<and> j < 2 * i * n) = (2 * i dvd j \<and> j < 2 * i * Suc n)"
          using multiple_between [of i j n] by (cases "j < 2 * i * n") auto
        with False j show ?thesis by (simp add: stride_result_def)
      qed
    qed
    with True a b show ?thesis by simp
  next
    case False
    then have "stride_result G i S (Suc n) = ?Sn"
      by (auto simp: stride_result_def)
    with False show ?thesis by simp
  qed
  with step Suc.IH show ?case
    by (simp add: for_items_snoc del: upt_Suc)
qed

lemma stride_round_nth:
  assumes "length S = G" "0 < i" "2 * i dvd G" "j < G"
  shows "for_items (reduce_item G i) [0..<G] S = Inr (stride_result G i S G)"
    and "stride_result G i S G ! j = (if 2 * i dvd j then S ! j + S ! (j + i) else S ! j)"
proof -
  show "for_items (reduce_item G i) [0..<G] S = Inr (stride_result G i S G)"
    by (rule stride_phase [OF assms(1-3)])
  have le: "G \<le> 2 * i * G" using assms(2) by (cases i) simp_all
  have "j < 2 * i * G" by (rule less_le_trans [OF assms(4) le])
  with assms(4) show "stride_result G i S G ! j = (if 2 * i dvd j then S ! j + S ! (j + i) else S ! j)"
    by (simp add: stride_result_def)
qed

lemma seg_add: "seg S j (a + b) = seg S j a + seg S (j + a) b"
  by (simp add: seg_def take_add add.commute)

lemma seg_one: "j < length S \<Longrightarrow> seg S j (Suc 0) = S ! j"
  by (simp add: seg_def hd_drop_conv_nth take_Suc)

lemma pow2_dvd_pow2: "k < m \<Longrightarrow> 2 * 2 ^ k dvd (2::nat) ^ m"
proof -
  assume "k < m"
  then have "(2::nat) ^ Suc k dvd 2 ^ m" by (intro le_imp_power_dvd) simp
  then show ?thesis by simp
qed

lemma tree_loop_sum:
  assumes G: "G = 2 ^ m"
  shows "k \<le> m \<Longrightarrow> length S = G \<Longrightarrow>
         (\<forall>j<G. 2 ^ k dvd j \<longrightarrow> S ! j = seg S0 j (2 ^ k)) \<Longrightarrow>
         \<exists>S'. tree_loop G (2 ^ k) S = Inr S' \<and> length S' = G \<and> S' ! 0 = seg S0 0 G"
proof (induction "m - k" arbitrary: k S)
  case 0
  then have "k = m" by simp
  with G 0 show ?case by simp
next
  case (Suc d)
  then have km: "k < m" by simp
  let ?i = "(2::nat) ^ k"
  have ipos: "0 < ?i" by simp
  have dv: "2 * ?i dvd G" using km G by (simp add: pow2_dvd_pow2)
  have lt: "?i < G" using km G by simp
  let ?S1 = "stride_result G ?i S G"
  have round: "for_items (reduce_item G ?i) [0..<G] S = Inr ?S1"
    by (rule stride_phase [OF Suc.prems(2) ipos dv])
  have len1: "length ?S1 = G" by (simp add: stride_result_def)
  have inv1: "\<forall>j<G. 2 ^ Suc k dvd j \<longrightarrow> ?S1 ! j = seg S0 j (2 ^ Suc k)"
  proof (intro allI impI)
    fix j assume j: "j < G" and d: "2 ^ Suc k dvd j"
    then have d2: "2 * ?i dvd j" by simp
    then obtain l where l: "j = 2 * ?i * l" by (auto simp: dvd_def)
    have r: "j + ?i < G" using stride_in_range [OF ipos dv, of l] j l by simp
    have d1: "?i dvd j" using l by simp
    have d3: "?i dvd j + ?i" using d1 by simp
    have "?S1 ! j = S ! j + S ! (j + ?i)"
      using stride_round_nth(2) [OF Suc.prems(2) ipos dv j] d2 by simp
    also have "\<dots> = seg S0 j ?i + seg S0 (j + ?i) ?i"
      using Suc.prems(3) j r d1 d3 by simp
    also have "\<dots> = seg S0 j (2 ^ Suc k)"
      using seg_add [of S0 j ?i ?i] by (simp add: mult_2)
    finally show "?S1 ! j = seg S0 j (2 ^ Suc k)" .
  qed
  have "d = m - Suc k" using Suc.hyps(2) by simp
  from Suc.hyps(1) [OF this _ len1 inv1] km
  obtain S' where S': "tree_loop G (2 ^ Suc k) ?S1 = Inr S'" "length S' = G" "S' ! 0 = seg S0 0 G"
    by auto
  have "tree_loop G ?i S = tree_loop G (?i * 2) ?S1"
    using lt round by (subst tree_loop.simps) simp
  with S' show ?case by (simp add: mult.commute)
qed

lemma tree_loop_total:
  assumes "G = 2 ^ m" "length S = G"
  shows "\<exists>S'. tree_loop G 1 S = Inr S' \<and> length S' = G \<and> S' ! 0 = sum_list S"
proof -
  have inv: "\<forall>j<G. 2 ^ 0 dvd j \<longrightarrow> S ! j = seg S j (2 ^ 0)"
    using assms(2) by (simp add: seg_one)
  have "\<exists>S'. tree_loop G (2 ^ 0) S = Inr S' \<and> length S' = G \<and> S' ! 0 = seg S 0 G"
    by (rule tree_loop_sum [OF assms(1) _ assms(2) inv]) simp
  then show ?thesis using assms(2) by (simp add: seg_def)
qed

lemma tree_loop_strides:
  assumes G: "G = 2 ^ m"
  shows "k \<le> m \<Longrightarrow>
         tree_loop G (2 ^ k) S =
           for_items (\<lambda>k. for_items (reduce_item G (2 ^ k)) [0..<G]) [k..<m] S"
proof (induction "m - k" arbitrary: k S)
  case 0
  then have "k = m" by simp
  with G show ?case by simp
next
  case (Suc d)
  then have km: "k < m" by simp
  have lt: "(2::nat) ^ k < G" using km G by simp
  have "d = m - Suc k" using Suc.hyps(2) by simp
  from Suc.hyps(1) [OF this] km
  have IH: "tree_loop G (2 ^ Suc k) T =
      for_items (\<lambda>k. for_items (reduce_item G (2 ^ k)) [0..<G]) [Suc k..<m] T" for T
    by simp
  show ?case
    using lt km IH
    by (subst tree_loop.simps) (simp add: upt_conv_Cons mult.commute split: sum.splits)
qed

lemma load_item_fail:
  assumes "l < length S" "2 * (w * G + l) < L" "\<not> 2 * (w * G + l) + 1 < length B"
  shows "load_item G L B w l (S, tr) =
           Inl (GlobalOutOfBounds (if 2 * (w * G + l) < length B then 2 * (w * G + l) + 1
                                    else 2 * (w * G + l)))"
  using assms by (auto simp: load_item_def Let_def)

lemma load_phase_fail:
  assumes "loads_ok G L B w n" "n < G" "G \<le> length S"
    "2 * (w * G + n) < L" "\<not> 2 * (w * G + n) + 1 < length B"
  shows "for_items (load_item G L B w) [0..<G] (S, tr) =
           Inl (GlobalOutOfBounds (if 2 * (w * G + n) < length B then 2 * (w * G + n) + 1
                                    else 2 * (w * G + n)))"
proof -
  have "[0..<G] = [0..<n] @ [n..<G]"
    using upt_add_eq_append [of 0 n "G - n"] assms(2) by simp
  then have split: "[0..<G] = [0..<n] @ n # [Suc n..<G]"
    using assms(2) by (simp add: upt_conv_Cons)
  have n: "n \<le> length S" using assms(2,3) by simp
  have l: "n < length (map (\<lambda>l. pair_value L B (w * G + l)) [0..<n] @ drop n S)"
    using assms(2,3) by simp
  show ?thesis
    unfolding split for_items_append load_phase [OF assms(1) n]
    by (simp add: load_item_fail [OF l assms(4,5)])
qed

lemma write_rest:
  "\<forall>l\<in>set ls. l \<noteq> 0 \<Longrightarrow> for_items (write_item S w) ls st = Inr st"
  by (induction ls) (auto simp: write_item_def split: prod.splits)

lemma write_phase:
  "for_items (write_item S w) [0..<G] (B, tr) =
     (if G = 0 then Inr (B, tr) else write_item S w 0 (B, tr))"
proof (cases "G = 0")
  case True
  then show ?thesis by simp
next
  case False
  then have "[0..<G] = 0 # [Suc 0..<G]" by (simp add: upt_conv_Cons)
  then show ?thesis using False
    by (auto simp: write_rest split: sum.splits)
qed

lemma run_group_ok:
  assumes "G = 2 ^ m" "loads_ok G L B w G" "w < length B"
  shows "run_group G L B w = Inr (B[w := group_sum G L B w], group_trace G L w)"
proof -
  let ?S = "map (\<lambda>l. pair_value L B (w * G + l)) [0..<G]"
  have load: "for_items (load_item G L B w) [0..<G] (replicate G 0, []) =
                Inr (?S, concat (map (\<lambda>l. pair_reads L (w * G + l)) [0..<G]))"
    using load_phase [OF assms(2), of "replicate G 0" "[]"] by simp
  have "length ?S = G" by simp
  from tree_loop_total [OF assms(1) this]
  obtain S' where S': "tree_loop G 1 ?S = Inr S'" "length S' = G" "S' ! 0 = sum_list ?S"
    by blast
  have G: "0 < G" using assms(1) by simp
  show ?thesis
    unfolding run_group_def load
    using S' G assms(3)
    by (simp add: write_phase write_item_def group_sum_def group_trace_def)
qed

lemma loads_ok_even:
  assumes "even L" "L \<le> length B"
  shows "loads_ok G L B w n"
proof -
  have "2 * g + 1 < length B" if "2 * g < L" for g
  proof -
    from that assms(1) have "2 * g + 1 \<noteq> L" by presburger
    with that assms(2) show ?thesis by simp
  qed
  then show ?thesis unfolding loads_ok_def by blast
qed

lemma pair_value_seg:
  assumes "2 * g + 1 < length B" "2 * g < L"
  shows "pair_value L B g = seg B (2 * g) 2"
proof -
  have "drop (2 * g) B = B ! (2 * g) # B ! (2 * g + 1) # drop (2 * g + 2) B"
    using assms(1) by (simp add: Cons_nth_drop_Suc)
  then have "take 2 (drop (2 * g) B) = [B ! (2 * g), B ! (2 * g + 1)]"
    by (simp add: numeral_2_eq_2)
  with assms(2) show ?thesis by (simp add: pair_value_def seg_def)
qed

lemma pair_sum:
  assumes "even L" "L \<le> length B"
  shows "a \<le> b \<Longrightarrow>
         sum_list (map (pair_value L B) [a..<b]) = seg B (min (2 * a) L) (min (2 * b) L - min (2 * a) L)"
proof (induction b)
  case 0
  then show ?case by (simp add: seg_def)
next
  case (Suc b)
  show ?case
  proof (cases "a = Suc b")
    case True
    then show ?thesis by (simp add: seg_def)
  next
    case False
    with Suc.prems have ab: "a \<le> b" by simp
    note IH = Suc.IH [OF ab]
    show ?thesis
    proof (cases "2 * b < L")
      case True
      from True assms(1) have "2 * b + 1 \<noteq> L" by presburger
      with True have lt: "2 * b + 2 \<le> L" by simp
      then have in_B: "2 * b + 1 < length B" using assms(2) by simp
      have mins: "min (2 * a) L = 2 * a" "min (2 * b) L = 2 * b" "min (2 * Suc b) L = 2 * b + 2"
        using ab lt by simp_all
      have "2 * b + 2 - 2 * a = (2 * b - 2 * a) + 2" using ab by simp
      then have "seg B (2 * a) (2 * b + 2 - 2 * a) = seg B (2 * a) ((2 * b - 2 * a) + 2)"
        by (simp only:)
      also have "\<dots> = seg B (2 * a) (2 * b - 2 * a) + seg B (2 * a + (2 * b - 2 * a)) 2"
        by (rule seg_add)
      also have "2 * a + (2 * b - 2 * a) = 2 * b" using ab by simp
      finally have split: "seg B (2 * a) (2 * b + 2 - 2 * a) =
          seg B (2 * a) (2 * b - 2 * a) + seg B (2 * b) 2" .
      have "sum_list (map (pair_value L B) [a..<Suc b]) =
              sum_list (map (pair_value L B) [a..<b]) + pair_value L B b"
        using ab by simp
      also have "\<dots> = seg B (2 * a) (2 * b - 2 * a) + seg B (2 * b) 2"
        using IH pair_value_seg [OF in_B True] by (simp add: mins)
      also have "\<dots> = seg B (2 * a) (2 * b + 2 - 2 * a)"
        by (simp only: split)
      finally show ?thesis unfolding mins .
    next
      case False
      then have "min (2 * b) L = L" "min (2 * Suc b) L = L" by simp_all
      with False ab IH show ?thesis by (simp add: pair_value_def)
    qed
  qed
qed

lemma group_sum_seg:
  assumes "even L" "L \<le> length B"
  shows "group_sum G L B w =
           seg B (min (2 * (w * G)) L) (min (2 * (Suc w * G)) L - min (2 * (w * G)) L)"
proof -
  have "map (\<lambda>l. pair_value L B (w * G + l)) [0..<G] = map (pair_value L B) (map (\<lambda>l. l + w * G) [0..<G])"
    by (simp add: add.commute)
  also have "\<dots> = map (pair_value L B) [w * G..<G + w * G]"
    by (simp only: map_add_upt)
  finally have "group_sum G L B w = sum_list (map (pair_value L B) [w * G..<G + w * G])"
    by (simp add: group_sum_def)
  also have "\<dots> = seg B (min (2 * (w * G)) L) (min (2 * (G + w * G)) L - min (2 * (w * G)) L)"
    by (rule pair_sum [OF assms]) simp
  finally show ?thesis by (simp add: add.commute)
qed

lemma group_sums_seg:
  assumes "even L" "L \<le> length B"
  shows "sum_list (map (group_sum G L B) [0..<n]) = seg B 0 (min (2 * (n * G)) L)"
proof (induction n)
  case 0
  then show ?case by (simp add: seg_def)
next
  case (Suc n)
  have le: "min (2 * (n * G)) L \<le> min (2 * (Suc n * G)) L" by simp
  have "seg B 0 (min (2 * (Suc n * G)) L) =
          seg B 0 (min (2 * (n * G)) L + (min (2 * (Suc n * G)) L - min (2 * (n * G)) L))"
    using le by simp
  also have "\<dots> = seg B 0 (min (2 * (n * G)) L) + group_sum G L B n"
    by (simp only: seg_add group_sum_seg [OF assms]) simp
  finally show ?case using Suc.IH by simp
qed

lemma work_group_count_le:
  assumes "0 < G"
  shows "L \<le> 2 * (work_group_count G L * G)"
proof -
  define D where "D = G * 2"
  define q where "q = (L + D - 1) div D"
  have D: "0 < D" using assms by (simp add: D_def)
  have "L + D - 1 = q * D + (L + D - 1) mod D" by (simp add: q_def)
  moreover have "(L + D - 1) mod D < D" using D by simp
  ultimately have "L \<le> q * D" by linarith
  then show ?thesis
    by (simp add: work_group_count_def Let_def q_def D_def mult.commute mult.left_commute)
qed

lemma group_step_apply:
  "group_step G L w (B, tr) =
     (case run_group G L B w of Inl e \<Rightarrow> Inl e | Inr (B', tr') \<Rightarrow> Inr (B', tr @ tr'))"
  by (simp add: group_step_def)

lemma launch_ok:
  assumes "G = 2 ^ m" "even L"
  shows "L \<le> length B \<Longrightarrow> \<forall>w\<in>set ws. w < length B \<Longrightarrow>
         \<exists>B'. for_items (group_step G L) ws (B, tr) = Inr (B', tr @ concat (map (group_trace G L) ws))
              \<and> length B' = length B"
proof (induction ws arbitrary: B tr)
  case Nil
  then show ?case by simp
next
  case (Cons w ws)
  have w: "w < length B" using Cons.prems(2) by simp
  have g: "run_group G L B w = Inr (B[w := group_sum G L B w], group_trace G L w)"
    by (rule run_group_ok [OF assms(1) loads_ok_even [OF assms(2) Cons.prems(1)] w])
  have "\<exists>B'. for_items (group_step G L) ws (B[w := group_sum G L B w], tr @ group_trace G L w) =
            Inr (B', (tr @ group_trace G L w) @ concat (map (group_trace G L) ws))
          \<and> length B' = length (B[w := group_sum G L B w])"
    by (rule Cons.IH) (use Cons.prems in simp_all)
  then show ?case by (simp add: group_step_apply g)
qed

lemma pair_value_cong:
  assumes "even L" "L \<le> length B" "\<forall>j. n \<le> j \<and> j < length B \<longrightarrow> B' ! j = B ! j" "n \<le> 2 * g"
  shows "pair_value L B' g = pair_value L B g"
proof (cases "2 * g < L")
  case True
  from True assms(1) have "2 * g + 1 \<noteq> L" by presburger
  with True assms(2) have "2 * g < length B" "2 * g + 1 < length B" by simp_all
  with assms(3,4) have "B' ! (2 * g) = B ! (2 * g)" "B' ! (2 * g + 1) = B ! (2 * g + 1)" by simp_all
  then show ?thesis by (simp add: pair_value_def)
next
  case False
  then show ?thesis by (simp add: pair_value_def)
qed

lemma group_sum_cong:
  assumes "even L" "L \<le> length B" "\<forall>j. n \<le> j \<and> j < length B \<longrightarrow> B' ! j = B ! j" "0 < G"
  shows "group_sum G L B' n = group_sum G L B n"
proof -
  have "pair_value L B' (n * G + l) = pair_value L B (n * G + l)" for l
  proof (rule pair_value_cong [OF assms(1-3)])
    have "n \<le> n * G" using assms(4) by (cases G) simp_all
    moreover have "n * G \<le> 2 * (n * G + l)" by simp
    ultimately show "n \<le> 2 * (n * G + l)" by (rule le_trans)
  qed
  then show ?thesis by (simp add: group_sum_def)
qed

lemma launch_ascending:
  assumes "G = 2 ^ m" "even L" "L \<le> length B"
  shows "n \<le> length B \<Longrightarrow>
         \<exists>B'. for_items (group_step G L) [0..<n] (B, tr) =
                 Inr (B', tr @ concat (map (group_trace G L) [0..<n]))
              \<and> length B' = length B
              \<and> (\<forall>w<n. B' ! w = group_sum G L B w)
              \<and> (\<forall>j. n \<le> j \<and> j < length B \<longrightarrow> B' ! j = B ! j)"
proof (induction n)
  case 0
  then show ?case by simp
next
  case (Suc n)
  then obtain Bn where
    run: "for_items (group_step G L) [0..<n] (B, tr) =
            Inr (Bn, tr @ concat (map (group_trace G L) [0..<n]))"
    and len: "length Bn = length B"
    and low: "\<forall>w<n. Bn ! w = group_sum G L B w"
    and high: "\<forall>j. n \<le> j \<and> j < length B \<longrightarrow> Bn ! j = B ! j"
    by auto
  have G: "0 < G" using assms(1) by simp
  have n: "n < length Bn" using Suc.prems len by simp
  have L: "L \<le> length Bn" using assms(3) len by simp
  have g: "run_group G L Bn n = Inr (Bn[n := group_sum G L Bn n], group_trace G L n)"
    by (rule run_group_ok [OF assms(1) loads_ok_even [OF assms(2) L] n])
  have s: "group_sum G L Bn n = group_sum G L B n"
    by (rule group_sum_cong [OF assms(2,3) high G])
  let ?B' = "Bn[n := group_sum G L B n]"
  have "for_items (group_step G L) [0..<Suc n] (B, tr) =
          Inr (?B', tr @ concat (map (group_trace G L) [0..<Suc n]))"
    by (simp add: for_items_snoc run group_step_apply g s del: upt_Suc) simp
  moreover have "length ?B' = length B" using len by simp
  moreover have "\<forall>w<Suc n. ?B' ! w = group_sum G L B w"
    using low n by (auto simp: less_Suc_eq nth_list_update)
  moreover have "\<forall>j. Suc n \<le> j \<and> j < length B \<longrightarrow> ?B' ! j = B ! j"
    using high by (auto simp: nth_list_update)
  ultimately show ?case by blast
qed

lemma work_group_count_le_self:
  assumes "0 < G"
  shows "work_group_count G L \<le> L"
proof -
  have "L \<le> L * (G * 2)" using assms by simp
  then have "L + G * 2 - 1 < G * 2 + L * (G * 2)" using assms by linarith
  then have "L + G * 2 - 1 < Suc L * (G * 2)" by (simp only: mult_Suc)
  then have "(L + G * 2 - 1) div (G * 2) < Suc L"
    by (rule less_mult_imp_div_less)
  then show ?thesis by (simp add: work_group_count_def Let_def)
qed

lemma work_group_count_one:
  assumes "0 < L" "L \<le> 2 * G"
  shows "work_group_count G L = 1"
proof -
  have "(L + G * 2 - 1) div (G * 2) = 1"
    by (rule div_nat_eqI) (use assms in simp_all)
  then show ?thesis by (simp add: work_group_count_def Let_def)
qed

lemma valid_order_one: "valid_order (Suc 0) order \<longleftrightarrow> order = [0]"
proof
  assume v: "valid_order (Suc 0) order"
  then have d: "distinct order" and s: "set order = {0}" by (simp_all add: valid_order_def)
  from s obtain x xs where o: "order = x # xs" by (cases order) auto
  with s have x: "x = 0" and xs: "set xs \<subseteq> {0}" by auto
  from d o x have "0 \<notin> set xs" by simp
  with xs have "xs = []" by (cases xs) auto
  with o x show "order = [0]" by simp
next
  assume "order = [0]"
  then show "valid_order (Suc 0) order" by (simp add: valid_order_def)
qed

lemma sweep_sum:
  assumes "G = 2 ^ m" "even L" "L \<le> length B"
  shows "\<exists>B'. parallel_for G L [0..<work_group_count G L] B =
                 Inr (B', concat (map (group_trace G L) [0..<work_group_count G L]))
            \<and> length B' = length B
            \<and> sum_list (take (work_group_count G L) B') = sum_list (take L B)
            \<and> (\<forall>w<work_group_count G L. B' ! w = group_sum G L B w)
            \<and> (\<forall>j. work_group_count G L \<le> j \<and> j < length B \<longrightarrow> B' ! j = B ! j)"
proof -
  let ?W = "work_group_count G L"
  have G: "0 < G" using assms(1) by simp
  have W: "?W \<le> length B" using work_group_count_le_self [OF G, of L] assms(3) by simp
  from launch_ascending [OF assms W, of "[]"] obtain B' where
    run: "for_items (group_step G L) [0..<?W] (B, []) =
            Inr (B', concat (map (group_trace G L) [0..<?W]))"
    and len: "length B' = length B"
    and low: "\<forall>w<?W. B' ! w = group_sum G L B w"
    and high: "\<forall>j. ?W \<le> j \<and> j < length B \<longrightarrow> B' ! j = B ! j"
    by auto
  have "take ?W B' = map (group_sum G L B) [0..<?W]"
    using low W len by (intro nth_equalityI) simp_all
  then have "sum_list (take ?W B') = seg B 0 (min (2 * (?W * G)) L)"
    by (simp add: group_sums_seg [OF assms(2,3)])
  also have "min (2 * (?W * G)) L = L"
    using work_group_count_le [OF G, of L] by simp
  finally have "sum_list (take ?W B') = sum_list (take L B)" by (simp add: seg_def)
  with run len low high show ?thesis by (auto simp: parallel_for_def)
qed

lemma one_group_sum:
  assumes "G = 2 ^ m" "even (length arr)" "0 < length arr" "length arr \<le> 2 * G"
    "valid_order (work_group_count G (length arr)) order"
  shows "printed (main_body G order arr) = Inr (sum_list arr)"
proof -
  let ?L = "length arr"
  have W: "work_group_count G ?L = 1" by (rule work_group_count_one [OF assms(3,4)])
  with assms(5) have order: "order = [0]" by (simp add: valid_order_one)
  from sweep_sum [OF assms(1,2), of arr] obtain B' tr where
    run: "parallel_for G ?L [0..<1] arr = Inr (B', tr)" and len: "length B' = ?L"
    and s: "sum_list (take 1 B') = sum_list (take ?L arr)"
    unfolding W by auto
  from len assms(3) have "take 1 B' = [B' ! 0]"
    by (cases B') simp_all
  with s have "B' ! 0 = sum_list arr" by simp
  moreover from len assms(3) have "0 < length B'" by simp
  ultimately show ?thesis
    using run by (simp add: main_body_def Let_def order)
qed

lemma populate_8: "populate 8 = [1, 2, 3, 4, 5, 6, 7, 8]"
  by (simp add: populate_def upt_rec)

lemma work_group_size_pow: "work_group_size = 2 ^ 9"
  by (simp add: work_group_size_def)

lemma odd_tail_fails:
  assumes "odd L" "length B = L" "L < 2 * G"
  shows "run_group G L B 0 = Inl (GlobalOutOfBounds L)"
proof -
  define n where "n = L div 2"
  from assms(1) have L: "L = 2 * n + 1" by (auto simp: n_def elim: oddE)
  have ok: "loads_ok G L B 0 n"
    using assms(2) L by (auto simp: loads_ok_def)
  have n: "n < G" using assms(3) L by simp
  have "for_items (load_item G L B 0) [0..<G] (replicate G 0, []) =
          Inl (GlobalOutOfBounds (if 2 * (0 * G + n) < length B then 2 * (0 * G + n) + 1
                                   else 2 * (0 * G + n)))"
    by (rule load_phase_fail [OF ok n]) (use assms(2) L in simp_all)
  then show ?thesis using assms(2) L by (simp add: run_group_def)
qed

lemma odd_sweep_fails:
  assumes "odd L" "length B = L" "L < 2 * G"
  shows "parallel_for G L (0 # ws) B = Inl (GlobalOutOfBounds L)"
  by (simp add: parallel_for_def group_step_apply odd_tail_fails [OF assms])

lemma populate_7: "populate 7 = [0, 1, 2, 3, 4, 5, 6]"
  by (simp add: populate_def upt_rec)

lemma group_trace_reads:
  "GRead i \<in> set (group_trace G L w) \<longleftrightarrow>
     (\<exists>l<G. 2 * (w * G + l) < L \<and> (i = 2 * (w * G + l) \<or> i = 2 * (w * G + l) + 1))"
  by (auto simp: group_trace_def pair_reads_def split: if_splits)

lemma group_trace_writes:
  "GWrite i \<in> set (group_trace G L w) \<longleftrightarrow> 0 < G \<and> i = w"
  by (auto simp: group_trace_def pair_reads_def split: if_splits)

lemma group_trace_read_range:
  assumes "GRead i \<in> set (group_trace G L w)"
  shows "2 * w * G \<le> i" and "i < 2 * (w + 1) * G" and "i \<le> L"
proof -
  from assms obtain l where l: "l < G" "2 * (w * G + l) < L"
    "i = 2 * (w * G + l) \<or> i = 2 * (w * G + l) + 1"
    by (auto simp: group_trace_reads)
  from l(3) show "2 * w * G \<le> i" by auto
  from l(1) have "2 * (w * G + l) + 1 < 2 * (w * G + G)" by simp
  with l(3) show "i < 2 * (w + 1) * G" by (auto simp: algebra_simps)
  from l(2,3) show "i \<le> L" by auto
qed

lemma group_trace_read_even:
  assumes "GRead i \<in> set (group_trace G L w)" "even L"
  shows "i < L"
proof -
  from assms(1) obtain l where l: "2 * (w * G + l) < L"
    "i = 2 * (w * G + l) \<or> i = 2 * (w * G + l) + 1"
    by (auto simp: group_trace_reads)
  from l(1) assms(2) have "2 * (w * G + l) + 1 \<noteq> L" by presburger
  with l show ?thesis by auto
qed

lemma work_group_count_gt:
  assumes "w < work_group_count G L"
  shows "2 * (w * G) < L"
proof -
  define D where "D = G * 2"
  have D: "0 < D"
  proof (rule ccontr)
    assume "\<not> 0 < D"
    then have "work_group_count G L = 0" by (simp add: work_group_count_def D_def)
    with assms show False by simp
  qed
  from assms have "Suc w \<le> (L + D - 1) div D"
    by (simp add: work_group_count_def Let_def D_def)
  with D have "Suc w * D \<le> L + D - 1"
    by (simp only: less_eq_div_iff_mult_less_eq)
  then have "w * D + D \<le> L + D - 1" by simp
  with D have "w * D < L" by linarith
  then show ?thesis by (simp add: D_def mult.commute mult.left_commute)
qed

lemma last_index_read:
  assumes "even L" "0 < L" "0 < G"
  shows "\<exists>w<work_group_count G L. GRead (L - 1) \<in> set (group_trace G L w)"
proof -
  from assms(1) obtain k where k: "L = 2 * k" by (auto elim: evenE)
  with assms(2) obtain h where "k = Suc h" by (cases k) auto
  with k have h: "L = 2 * Suc h" by simp
  define w where "w = h div G"
  define l where "l = h mod G"
  have hl: "w * G + l = h" by (simp add: w_def l_def)
  have l: "l < G" using assms(3) by (simp add: l_def)
  have "2 * h < 2 * (work_group_count G L * G)"
    using work_group_count_le [OF assms(3), of L] h by simp
  then have "h < work_group_count G L * G" by simp
  then have w: "w < work_group_count G L"
    unfolding w_def by (rule less_mult_imp_div_less)
  have "GRead (L - 1) \<in> set (group_trace G L w)"
    unfolding group_trace_reads
    by (rule exI [of _ l]) (use l hl h in simp)
  with w show ?thesis by blast
qed

lemma nraw_append:
  "no_read_after_write (xs @ ys) \<longleftrightarrow>
     no_read_after_write xs \<and> no_read_after_write ys
     \<and> (\<forall>i. GWrite i \<in> set xs \<longrightarrow> GRead i \<notin> set ys)"
proof (induction xs)
  case Nil
  then show ?case by simp
next
  case (Cons a xs)
  then show ?case by (cases a) auto
qed

lemma nraw_reads: "\<forall>a\<in>set xs. \<exists>i. a = GRead i \<Longrightarrow> no_read_after_write xs"
  by (induction xs) auto

lemma nraw_group_trace: "no_read_after_write (group_trace G L w)"
proof -
  have "\<forall>a\<in>set (concat (map (\<lambda>l. pair_reads L (w * G + l)) [0..<G])). \<exists>i. a = GRead i"
    by (auto simp: pair_reads_def split: if_splits)
  then have "no_read_after_write (concat (map (\<lambda>l. pair_reads L (w * G + l)) [0..<G]))"
    by (rule nraw_reads)
  then show ?thesis by (simp add: group_trace_def nraw_append)
qed

lemma nraw_ascending:
  "no_read_after_write (concat (map (group_trace G L) [0..<n]))"
proof (induction n)
  case 0
  then show ?case by simp
next
  case (Suc n)
  have "GRead i \<notin> set (group_trace G L n)"
    if "GWrite i \<in> set (concat (map (group_trace G L) [0..<n]))" for i
  proof
    assume r: "GRead i \<in> set (group_trace G L n)"
    from that have i: "i < n" and G: "0 < G" by (auto simp: group_trace_writes)
    have "n \<le> n * G" using G by (cases G) simp_all
    also have "\<dots> \<le> 2 * n * G" by simp
    also have "\<dots> \<le> i" by (rule group_trace_read_range(1) [OF r])
    finally show False using i by simp
  qed
  with Suc.IH show ?case by (simp add: nraw_append nraw_group_trace)
qed

lemma launch_any_order:
  assumes "G = 2 ^ m" "even L" "L \<le> length B" "valid_order (work_group_count G L) order"
  shows "\<exists>B'. parallel_for G L order B = Inr (B', concat (map (group_trace G L) order))
              \<and> length B' = length B"
proof -
  have G: "0 < G" using assms(1) by simp
  have "\<forall>w\<in>set order. w < length B"
  proof
    fix w assume "w \<in> set order"
    with assms(4) have "w < work_group_count G L" by (simp add: valid_order_def)
    also have "\<dots> \<le> L" by (rule work_group_count_le_self [OF G])
    finally show "w < length B" using assms(3) by simp
  qed
  from launch_ok [OF assms(1,2,3) this, of "[]"] show ?thesis
    by (simp add: parallel_for_def)
qed

lemma ones_split: "replicate 1026 (1 :: i32) = [1, 1] @ replicate 1024 1"
proof -
  have "replicate (2 + 1024) (1 :: i32) = replicate 2 1 @ replicate 1024 1"
    by (rule replicate_add)
  then show ?thesis by (simp add: numeral_2_eq_2)
qed

lemma reversed_order_sweep:
  "parallel_for work_group_size 1026 [1, 0] (replicate 1026 1) =
     Inr ([1025, 2] @ replicate 1024 1,
          group_trace work_group_size 1026 1 @ group_trace work_group_size 1026 0)"
proof -
  let ?B = "replicate 1026 (1 :: i32)"
  let ?B1 = "[1, 2] @ replicate 1024 (1 :: i32)"
  have ok: "loads_ok work_group_size 1026 B w n" if "length B = 1026" for B w n
    by (rule loads_ok_even) (simp_all add: that)
  have s1: "group_sum work_group_size 1026 ?B 1 = 2"
    by (simp add: group_sum_seg work_group_size_def seg_def sum_list_replicate)
  have g1: "run_group work_group_size 1026 ?B 1 = Inr (?B1, group_trace work_group_size 1026 1)"
    using run_group_ok [OF work_group_size_pow ok, of ?B 1] s1
    by (simp add: ones_split)
  have s0: "group_sum work_group_size 1026 ?B1 0 = 1025"
    by (simp add: group_sum_seg work_group_size_def seg_def sum_list_replicate)
  have g0: "run_group work_group_size 1026 ?B1 0 =
              Inr ([1025, 2] @ replicate 1024 1, group_trace work_group_size 1026 0)"
    using run_group_ok [OF work_group_size_pow ok, of ?B1 0] s0
    by simp
  show ?thesis
    unfolding parallel_for_def
    by (simp only: for_items.simps group_step_apply g1 g0 sum.case prod.case append_Nil)
qed

lemma two_groups: "work_group_count work_group_size 1026 = 2"
  by (simp add: work_group_count_def work_group_size_def)

lemma ascending_order_sweep:
  "\<exists>B'. parallel_for work_group_size 1026 [0, 1] (replicate 1026 1) =
          Inr (B', concat (map (group_trace work_group_size 1026) [0..<2]))
        \<and> sum_list (take 2 B') = 1026"
proof -
  have up: "[0..<2] = [0, 1]" by (simp add: upt_rec)
  from sweep_sum [OF work_group_size_pow, of 1026 "replicate 1026 1"]
  show ?thesis unfolding two_groups
    by (simp only: up [symmetric]) (auto simp: sum_list_replicate)
qed

lemma partial_sum_ones:
  "printed (main_body work_group_size [0, 1] (replicate 1026 1)) = Inr 1024
   \<and> printed (main_body work_group_size [1, 0] (replicate 1026 1)) = Inr 1025
   \<and> sum_list (replicate 1026 (1 :: i32)) = 1026
   \<and> (1024 :: i32) \<noteq> 1026 \<and> (1025 :: i32) \<noteq> 1026"
proof -
  let ?B = "replicate 1026 (1 :: i32)"
  have W: "work_group_count work_group_size 1026 = 2"
    by (simp add: work_group_count_def work_group_size_def)
  have up: "[0..<2] = [0, 1]" by (simp add: upt_rec)
  from sweep_sum [OF work_group_size_pow, of 1026 ?B] obtain B' tr where
    run: "parallel_for work_group_size 1026 [0, 1] ?B = Inr (B', tr)"
    and len: "length B' = 1026"
    and low: "B' ! 0 = group_sum work_group_size 1026 ?B 0"
    unfolding W up by auto
  have "group_sum work_group_size 1026 ?B 0 = seg ?B 0 1024"
    by (simp add: group_sum_seg work_group_size_def)
  also have "\<dots> = 1024" by (simp add: seg_def sum_list_replicate)
  finally have "B' ! 0 = 1024" using low by simp
  moreover from len have "0 < length B'" by simp
  ultimately have a: "printed (main_body work_group_size [0, 1] ?B) = Inr 1024"
    using run by (simp add: main_body_def Let_def)
  have b: "printed (main_body work_group_size [1, 0] ?B) = Inr 1025"
    by (simp add: main_body_def Let_def reversed_order_sweep [unfolded One_nat_def])
  from a b show ?thesis by (simp add: sum_list_replicate)
qed

lemma sum_upto_word:
  "sum_list (map (\<lambda>i. of_nat (i + 1)) [0..<n]) = (of_nat (n * (n + 1) div 2) :: i32)"
proof (induction n)
  case 0
  then show ?case by simp
next
  case (Suc n)
  have "Suc n * (Suc n + 1) = n * (n + 1) + (n + 1) * 2" by simp
  then have "Suc n * (Suc n + 1) div 2 = n * (n + 1) div 2 + (n + 1)"
    by (simp only: div_mult_self3) simp
  with Suc.IH show ?case by simp
qed

lemma populate_even: "even N \<Longrightarrow> populate N = map (\<lambda>i. of_nat (i + 1)) [0..<N]"
  by (simp add: populate_def)

lemma partial_sum_program:
  "printed (main 1026 [0, 1]) = Inr 524800
   \<and> sum_list (populate 1026) = 526851
   \<and> (524800 :: i32) \<noteq> 526851"
proof -
  let ?B = "populate 1026"
  have lenB: "length ?B = 1026" by (simp add: populate_def)
  have W: "work_group_count work_group_size 1026 = 2"
    by (simp add: work_group_count_def work_group_size_def)
  have up: "[0..<2] = [0, 1]" by (simp add: upt_rec)
  from sweep_sum [OF work_group_size_pow, of 1026 ?B] lenB obtain B' tr where
    run: "parallel_for work_group_size 1026 [0, 1] ?B = Inr (B', tr)"
    and len: "length B' = 1026"
    and low: "B' ! 0 = group_sum work_group_size 1026 ?B 0"
    unfolding W up by auto
  have "group_sum work_group_size 1026 ?B 0 = seg ?B 0 1024"
    using lenB by (simp add: group_sum_seg work_group_size_def)
  also have "\<dots> = sum_list (map (\<lambda>i. of_nat (i + 1)) [0..<1024])"
    by (simp add: seg_def populate_even take_map)
  also have "\<dots> = 524800" by (simp only: sum_upto_word) simp
  finally have "B' ! 0 = 524800" using low by simp
  moreover from len have "0 < length B'" by simp
  ultimately have a: "printed (main 1026 [0, 1]) = Inr 524800"
    using run lenB by (simp add: main_def main_body_def Let_def)
  have "populate 1026 = map (\<lambda>i. of_nat (i + 1)) [0..<1026]"
    by (rule populate_even) simp
  then have "sum_list ?B = of_nat (1026 * (1026 + 1) div 2)"
    by (simp only: sum_upto_word)
  then have "sum_list ?B = 526851" by simp
  with a show ?thesis by simp
qed

section \<open>The result of the program\<close>

text \<open>
  Claim C1 states that for every finite sequence \<open>A\<close> of \<open>int\<close>s the program
  returns the sum of \<open>A\<close>, with wrap-around, as the value printed from cell 0 of the
  buffer. The code does not do so for an array longer than
  \<open>2 * work_group_size = 1024\<close>, for which the only launch has two work-groups or
  more. With \<open>N = 1026\<close> at line 34 the array is \<open>[1, \<dots>, 1026]\<close>, whose sum is
  526851; when group 0 runs first, line 128 prints 524800, the sum of the first 1024
  elements. For 1026 ones, whose sum is 1026, line 128 prints 1024 when group 0 runs
  first, and 1025 when group 1 runs first, since group 0 then reads the cell 1 that
  group 1 has overwritten.
\<close>

theorem partial_sum_beyond_one_group:
  "printed (main 1026 [0, 1]) = Inr 524800
   \<and> sum_list (populate 1026) = 526851
   \<and> (524800 :: i32) \<noteq> 526851
   \<and> printed (main_body work_group_size [0, 1] (replicate 1026 1)) = Inr 1024
   \<and> printed (main_body work_group_size [1, 0] (replicate 1026 1)) = Inr 1025
   \<and> sum_list (replicate 1026 (1 :: i32)) = 1026
   \<and> (1024 :: i32) \<noteq> 1026 \<and> (1025 :: i32) \<noteq> 1026"
  using partial_sum_program partial_sum_ones by simp

section \<open>The driver\<close>

text \<open>
  Claim C2 states that the driver launches a sweep while the active length is greater
  than 1, so that an input of more than \<open>2 * work_group_size\<close> elements gets more
  than one sweep before the result is read. The code of lines 70 to 128 submits one
  launch: with \<open>N = 1026\<close> at line 34 it is the launch with
  \<open>iterationCount = 1026\<close> and 2 work-groups, and line 122 leaves
  \<open>iterationCount = 2\<close>, which is greater than 1, before line 126 reads the result.
\<close>

theorem one_launch_for_two_groups:
  "submitted (main 1026 order) = [(1026, 2)] \<and> iterationCount_end (main 1026 order) = 2"
  by (simp add: main_def main_body_def populate_def work_group_count_def work_group_size_def)

section \<open>The pair-load\<close>

text \<open>
  Claim C3 states that a work-item whose first index \<open>2 * g\<close> is the last index
  \<open>L - 1\<close> of an odd active length loads the single cell \<open>2 * g\<close>, and that no
  index at or beyond \<open>L\<close> is read. The code has one test, \<open>2 * g < L\<close>, and then
  reads both cells: for the array \<open>[0, \<dots>, 6]\<close> that lines 47 to 49 build for
  \<open>N = 7\<close>, the work-item with global id 3 reads index 6 and then index 7, which is
  outside the buffer; the launch and the program for \<open>N = 7\<close> fail with it.
\<close>

theorem odd_tail_load_out_of_range:
  "populate 7 = [0, 1, 2, 3, 4, 5, 6]
   \<and> load_item work_group_size 7 (populate 7) 0 3 (replicate work_group_size 0, [])
       = Inl (GlobalOutOfBounds 7)
   \<and> parallel_for work_group_size 7 [0] (populate 7) = Inl (GlobalOutOfBounds 7)
   \<and> printed (main 7 [0]) = Inl (GlobalOutOfBounds 7)"
proof -
  have a: "load_item work_group_size 7 (populate 7) 0 3 (replicate work_group_size 0, [])
       = Inl (GlobalOutOfBounds 7)"
    by (simp add: populate_7 load_item_def work_group_size_def)
  have b: "parallel_for work_group_size 7 [0] (populate 7) = Inl (GlobalOutOfBounds 7)"
    by (rule odd_sweep_fails) (simp_all add: populate_7 work_group_size_def)
  moreover have "length (populate 7) = 7" by (simp add: populate_def)
  ultimately have "printed (main 7 [0]) = Inl (GlobalOutOfBounds 7)"
    by (simp add: main_def main_body_def Let_def)
  with a b populate_7 show ?thesis by simp
qed

section \<open>The sum across a sweep\<close>

text \<open>
  Claim C4 states that for every input the sum of the active prefix of the buffer after
  every completed sweep is the sum of the input, and that cell 0 holds that sum once the
  active length is 1. The sweep of the code does not keep the sum. For the odd length 7
  it reads index 7 of a buffer of 7 cells and does not complete (the defect of claim
  C3). For 1026 ones the launch has two work-groups, between which the kernel has no
  synchronisation although group 0 reads the cell 1 that group 1 writes: when group 1
  runs before group 0, the two cells of the active prefix after the sweep sum to 1027;
  when group 0 runs first they sum to 1026.
\<close>

theorem sweep_loses_sum:
  "parallel_for work_group_size 7 [0] (populate 7) = Inl (GlobalOutOfBounds 7)
   \<and> valid_order (work_group_count work_group_size 1026) [1, 0]
   \<and> (case parallel_for work_group_size 1026 [1, 0] (replicate 1026 1) of
        Inl e \<Rightarrow> False
      | Inr (B', tr) \<Rightarrow> sum_list (take (work_group_count work_group_size 1026) B') = 1027)
   \<and> valid_order (work_group_count work_group_size 1026) [0, 1]
   \<and> (case parallel_for work_group_size 1026 [0, 1] (replicate 1026 1) of
        Inl e \<Rightarrow> False
      | Inr (B', tr) \<Rightarrow> sum_list (take (work_group_count work_group_size 1026) B') = 1026)
   \<and> sum_list (take 1026 (replicate 1026 (1 :: i32))) = 1026
   \<and> (1027 :: i32) \<noteq> 1026"
proof -
  have odd: "parallel_for work_group_size 7 [0] (populate 7) = Inl (GlobalOutOfBounds 7)"
    by (rule odd_sweep_fails) (simp_all add: populate_7 work_group_size_def)
  have v: "valid_order 2 [1, 0]" "valid_order 2 [0, 1]" by code_simp+
  from ascending_order_sweep obtain B' where
    a: "parallel_for work_group_size 1026 [0, 1] (replicate 1026 1) =
          Inr (B', concat (map (group_trace work_group_size 1026) [0..<2]))"
    and s: "sum_list (take 2 B') = 1026"
    by blast
  show ?thesis
    unfolding two_groups reversed_order_sweep odd a using v s
    by (simp add: sum_list_replicate)
qed

section \<open>The in-group tree reduction\<close>

text \<open>
  Claim C5. Let the work-group size \<open>G\<close> be a power of two, \<open>G = 2 ^ m\<close>, and let
  the scratch array have \<open>G\<close> cells. Then the loop of lines 102 to 109 runs the strides
  \<open>i = 2 ^ k\<close> for \<open>k = 0, \<dots>, m - 1\<close>, that is \<open>1, 2, 4, \<dots>, G div 2\<close>, one full
  round of all work-items per stride; in the stride \<open>i\<close> the work-item \<open>local_id\<close>
  with \<open>index = 2 * i * local_id < G\<close> adds the cell \<open>index + i\<close> to the cell
  \<open>index\<close> and every other work-item leaves the scratch array as it is; no access
  leaves the array; and after the last stride the cell 0 holds the sum of all \<open>G\<close>
  values the scratch array held before the loop.
\<close>

theorem tree_reduction:
  assumes "G = 2 ^ m" and "length local_mem = G"
  shows "tree_loop G 1 local_mem =
           for_items (\<lambda>k. for_items (reduce_item G (2 ^ k)) [0..<G])
             [0..<m] local_mem
       \<and> (\<forall>k<m. \<forall>local_id S. length S = G \<longrightarrow>
             reduce_item G (2 ^ k) local_id S =
               Inr (if 2 * 2 ^ k * local_id < G
                    then S[2 * 2 ^ k * local_id :=
                             S ! (2 * 2 ^ k * local_id) + S ! (2 * 2 ^ k * local_id + 2 ^ k)]
                    else S))
       \<and> (\<exists>S'. tree_loop G 1 local_mem = Inr S' \<and> length S' = G
               \<and> S' ! 0 = sum_list local_mem)"
proof (intro conjI allI impI)
  show "tree_loop G 1 local_mem =
           for_items (\<lambda>k. for_items (reduce_item G (2 ^ k)) [0..<G])
             [0..<m] local_mem"
    using tree_loop_strides [OF assms(1), of 0 local_mem] by simp
next
  fix k local_id and S :: "i32 list"
  assume "k < m" and "length S = G"
  then show "reduce_item G (2 ^ k) local_id S =
               Inr (if 2 * 2 ^ k * local_id < G
                    then S[2 * 2 ^ k * local_id :=
                             S ! (2 * 2 ^ k * local_id) + S ! (2 * 2 ^ k * local_id + 2 ^ k)]
                    else S)"
    using assms(1) by (intro reduce_item_ok) (simp_all add: pow2_dvd_pow2)
next
  show "\<exists>S'. tree_loop G 1 local_mem = Inr S' \<and> length S' = G
               \<and> S' ! 0 = sum_list local_mem"
    by (rule tree_loop_total [OF assms])
qed

theorem tree_reduction_witness:
  "(4::nat) = 2 ^ 2 \<and> length [1, 2, 3, 4 :: i32] = 4
   \<and> tree_loop 4 1 [1, 2, 3, 4] = Inr [10, 2, 7, 4]
   \<and> reduce_item 4 (2 ^ 1) 0 [3, 2, 7, 4] = Inr [10, 2, 7, 4]
   \<and> (\<exists>S'. tree_loop 4 1 [1, 2, 3, 4] = Inr S' \<and> length S' = 4 \<and> S' ! 0 = sum_list [1, 2, 3, 4])"
proof -
  have h1: "(4::nat) = 2 ^ 2" by simp
  have h2: "length [1, 2, 3, 4 :: i32] = 4" by simp
  note t = tree_reduction [where G = 4, OF h1 h2]
  have a: "tree_loop 4 1 [1, 2, 3, 4 :: i32] = Inr [10, 2, 7, 4]"
    by (simp add: t reduce_item_def upt_rec numeral_2_eq_2)
  have b: "reduce_item 4 (2 ^ 1) 0 [3, 2, 7, 4 :: i32] = Inr [10, 2, 7, 4]"
    using t by (simp add: reduce_item_def)
  from t have c: "\<exists>S'. tree_loop 4 1 [1, 2, 3, 4 :: i32] = Inr S' \<and> length S' = 4 \<and> S' ! 0 = sum_list [1, 2, 3, 4]"
    by blast
  from h1 h2 a b c show ?thesis by blast
qed

section \<open>Which cells a work-group reads and writes\<close>

text \<open>
  Claim C6 states that in every sweep the groups write disjoint indices and no group
  reads an index that a group has already overwritten in the same sweep. In the code
  group 0 reads the cells \<open>0, \<dots>, 2 * work_group_size - 1\<close>, among them the cells
  that the other groups write, and nothing orders the groups of a launch: the barriers
  of lines 100 and 108 synchronise the work-items of one group only. For 1026 elements,
  when group 1 runs before group 0, group 1 writes cell 1 and group 0 then reads cell 1;
  when group 0 runs first, no cell is read after it has been written.
\<close>

theorem read_after_overwrite:
  "valid_order (work_group_count work_group_size 1026) [1, 0]
   \<and> (case parallel_for work_group_size 1026 [1, 0] (replicate 1026 1) of
        Inl e \<Rightarrow> False
      | Inr (B', tr) \<Rightarrow> \<not> no_read_after_write tr)
   \<and> valid_order (work_group_count work_group_size 1026) [0, 1]
   \<and> (case parallel_for work_group_size 1026 [0, 1] (replicate 1026 1) of
        Inl e \<Rightarrow> False
      | Inr (B', tr) \<Rightarrow> no_read_after_write tr)"
proof -
  have v: "valid_order 2 [1, 0]" "valid_order 2 [0, 1]" by code_simp+
  have w: "GWrite 1 \<in> set (group_trace work_group_size 1026 1)"
    by (simp add: group_trace_writes work_group_size_def)
  have r: "GRead 1 \<in> set (group_trace work_group_size 1026 0)"
    unfolding group_trace_reads by (rule exI [of _ 0]) (simp add: work_group_size_def)
  from w r have n: "\<not> no_read_after_write
      (group_trace work_group_size 1026 1 @ group_trace work_group_size 1026 0)"
    by (auto simp: nraw_append)
  from ascending_order_sweep obtain B' where
    a: "parallel_for work_group_size 1026 [0, 1] (replicate 1026 1) =
          Inr (B', concat (map (group_trace work_group_size 1026) [0..<2]))"
    by blast
  show ?thesis
    unfolding two_groups reversed_order_sweep a using v n
    by (simp only: sum.case prod.case nraw_ascending) simp
qed

section \<open>A single element\<close>

text \<open>
  Claim C7 states that the program returns \<open>x\<close> for the array \<open>[x]\<close> and launches
  no kernel when the active length is 1. The code launches the kernel for every length:
  for \<open>[42]\<close>, and for the array \<open>[0]\<close> that the program builds with \<open>N = 1\<close> at
  line 34, it submits the launch with \<open>iterationCount = 1\<close> and one work-group,
  whose work-item 0 passes the test \<open>0 < 1\<close> and reads the indices 0 and 1, the
  second of which is outside the buffer.
\<close>

theorem singleton_launches_and_fails:
  "submitted (main_body work_group_size [0] [42]) = [(1, 1)]
   \<and> printed (main_body work_group_size [0] [42]) = Inl (GlobalOutOfBounds 1)
   \<and> populate 1 = [0]
   \<and> submitted (main 1 [0]) = [(1, 1)]
   \<and> printed (main 1 [0]) = Inl (GlobalOutOfBounds 1)"
proof -
  have p: "populate 1 = [0]" by (simp add: populate_def)
  have "parallel_for work_group_size 1 [0] [x] = Inl (GlobalOutOfBounds 1)" for x
    by (rule odd_sweep_fails) (simp_all add: work_group_size_def)
  then have b: "submitted (main_body work_group_size [0] [x]) = [(1, 1)]
      \<and> printed (main_body work_group_size [0] [x]) = Inl (GlobalOutOfBounds 1)" for x
    by (simp add: main_body_def work_group_count_def work_group_size_def)
  have m: "main 1 [0] = main_body work_group_size [0] [0]"
    by (simp only: main_def p)
  from b [of 42] b [of 0] p show ?thesis
    by (simp only: m)
qed

section \<open>Convergence of the active length\<close>

text \<open>
  Claim C8 states that the active length decreases in every iteration of the driver and
  that the sweep loop ends, with the active length 1, after a number of sweeps
  logarithmic in \<open>N\<close>. The host code has no loop: it submits one launch and assigns
  the number of work-groups to \<open>iterationCount\<close> once (line 122). With \<open>N = 1026\<close>
  at line 34 it ends with \<open>iterationCount = 2\<close>, where one more sweep would reach 1;
  with \<open>N = 2097152\<close> it ends with \<open>iterationCount = 2048\<close>, where two more sweeps
  would be needed.
\<close>

theorem one_update_leaves_active_length_above_one:
  "length (submitted (main 1026 order)) = 1
   \<and> iterationCount_end (main 1026 order) = 2
   \<and> work_group_count work_group_size 2 = 1
   \<and> length (submitted (main 2097152 order)) = 1
   \<and> iterationCount_end (main 2097152 order) = 2048
   \<and> work_group_count work_group_size 2048 = 2"
  by (simp add: main_def main_body_def populate_def work_group_count_def work_group_size_def)

section \<open>Bounds of the buffer accesses\<close>

text \<open>
  Claim C9. A work-item with \<open>2 * g < L\<close> reads both indices \<open>2 * g\<close> and
  \<open>2 * g + 1\<close> of the buffer with no further test (and fails when the second is out
  of range); a work-item with \<open>2 * g \<ge> L\<close> reads nothing. When \<open>L\<close> is even and at
  most the length of the buffer (and the work-group size is a power of two), a launch
  with \<open>work_group_count\<close> groups, run in any order, completes without an access out
  of range: every index read is below \<open>L\<close>, the index \<open>L - 1\<close> is read when
  \<open>L > 0\<close>, and every write is by a group \<open>w\<close> whose first work-item has
  \<open>2 * g < L\<close>, to the index \<open>w\<close> inside the buffer.
\<close>

theorem pair_load_in_bounds:
  "(local_id < length local_mem \<and> 2 * (w * G + local_id) < L \<longrightarrow>
      load_item G L B w local_id (local_mem, tr) =
        (if 2 * (w * G + local_id) + 1 < length B
         then Inr (local_mem[local_id := B ! (2 * (w * G + local_id)) + B ! (2 * (w * G + local_id) + 1)],
                   tr @ [GRead (2 * (w * G + local_id)), GRead (2 * (w * G + local_id) + 1)])
         else Inl (GlobalOutOfBounds (if 2 * (w * G + local_id) < length B
                                      then 2 * (w * G + local_id) + 1 else 2 * (w * G + local_id)))))
   \<and> (local_id < length local_mem \<and> \<not> 2 * (w * G + local_id) < L \<longrightarrow>
        load_item G L B w local_id (local_mem, tr) = Inr (local_mem[local_id := 0], tr))
   \<and> (G = 2 ^ m \<and> even L \<and> L \<le> length B \<and> valid_order (work_group_count G L) order \<longrightarrow>
        (\<exists>B' t. parallel_for G L order B = Inr (B', t)
           \<and> (\<forall>i. GRead i \<in> set t \<longrightarrow> i < L \<and> i < length B)
           \<and> (\<forall>i. GWrite i \<in> set t \<longrightarrow> i < length B \<and> 2 * (i * G) < L)
           \<and> (0 < L \<longrightarrow> GRead (L - 1) \<in> set t)))"
proof (intro conjI impI)
  assume "local_id < length local_mem \<and> 2 * (w * G + local_id) < L"
  then show "load_item G L B w local_id (local_mem, tr) =
        (if 2 * (w * G + local_id) + 1 < length B
         then Inr (local_mem[local_id := B ! (2 * (w * G + local_id)) + B ! (2 * (w * G + local_id) + 1)],
                   tr @ [GRead (2 * (w * G + local_id)), GRead (2 * (w * G + local_id) + 1)])
         else Inl (GlobalOutOfBounds (if 2 * (w * G + local_id) < length B
                                      then 2 * (w * G + local_id) + 1 else 2 * (w * G + local_id))))"
    by (auto simp: load_item_def Let_def)
next
  assume "local_id < length local_mem \<and> \<not> 2 * (w * G + local_id) < L"
  then show "load_item G L B w local_id (local_mem, tr) = Inr (local_mem[local_id := 0], tr)"
    by (auto simp: load_item_def Let_def)
next
  assume a: "G = 2 ^ m \<and> even L \<and> L \<le> length B \<and> valid_order (work_group_count G L) order"
  then have G: "0 < G" and ev: "even L" and len: "L \<le> length B"
    and ord: "set order = {0..<work_group_count G L}"
    by (simp_all add: valid_order_def)
  from a launch_any_order [of G m L B order] obtain B' where
    run: "parallel_for G L order B = Inr (B', concat (map (group_trace G L) order))"
    by blast
  let ?t = "concat (map (group_trace G L) order)"
  have reads: "\<forall>i. GRead i \<in> set ?t \<longrightarrow> i < L \<and> i < length B"
    using group_trace_read_even [OF _ ev] len by fastforce
  have writes: "\<forall>i. GWrite i \<in> set ?t \<longrightarrow> i < length B \<and> 2 * (i * G) < L"
  proof (intro allI impI)
    fix i assume "GWrite i \<in> set ?t"
    then have "i \<in> set order" by (auto simp: group_trace_writes)
    with ord have i: "i < work_group_count G L" by simp
    then have "2 * (i * G) < L" by (rule work_group_count_gt)
    moreover have "i < length B"
      using i work_group_count_le_self [OF G, of L] len by simp
    ultimately show "i < length B \<and> 2 * (i * G) < L" by simp
  qed
  have last: "0 < L \<longrightarrow> GRead (L - 1) \<in> set ?t"
  proof
    assume "0 < L"
    from last_index_read [OF ev this G] obtain w where
      "w < work_group_count G L" "GRead (L - 1) \<in> set (group_trace G L w)" by blast
    with ord show "GRead (L - 1) \<in> set ?t" by auto
  qed
  from run reads writes last
  show "\<exists>B' t. parallel_for G L order B = Inr (B', t)
           \<and> (\<forall>i. GRead i \<in> set t \<longrightarrow> i < L \<and> i < length B)
           \<and> (\<forall>i. GWrite i \<in> set t \<longrightarrow> i < length B \<and> 2 * (i * G) < L)
           \<and> (0 < L \<longrightarrow> GRead (L - 1) \<in> set t)"
    by blast
qed

theorem pair_load_in_bounds_witness:
  "(0 < length [0, 0 :: i32] \<and> 2 * (0 * 2 + 0) < (2::nat))
   \<and> load_item 2 2 [5, 6, 7, 8] 0 0 ([0, 0], []) = Inr ([11, 0], [GRead 0, GRead 1])
   \<and> (1 < length [11, 0 :: i32] \<and> \<not> 2 * (0 * 2 + 1) < (2::nat))
   \<and> load_item 2 2 [5, 6, 7, 8] 0 1 ([11, 0], [GRead 0, GRead 1]) = Inr ([11, 0], [GRead 0, GRead 1])
   \<and> ((2::nat) = 2 ^ 1 \<and> even (2::nat) \<and> 2 \<le> length [5, 6, 7, 8 :: i32]
        \<and> valid_order (work_group_count 2 2) [0])
   \<and> parallel_for 2 2 [0] [5, 6, 7, 8] = Inr ([11, 6, 7, 8], [GRead 0, GRead 1, GWrite 0])
   \<and> (\<exists>B' t. parallel_for 2 2 [0] [5, 6, 7, 8] = Inr (B', t)
           \<and> (\<forall>i. GRead i \<in> set t \<longrightarrow> i < 2 \<and> i < length [5, 6, 7, 8 :: i32])
           \<and> (\<forall>i. GWrite i \<in> set t \<longrightarrow> i < length [5, 6, 7, 8 :: i32] \<and> 2 * (i * 2) < 2)
           \<and> (0 < (2::nat) \<longrightarrow> GRead (2 - 1) \<in> set t))"
proof -
  have v: "valid_order (work_group_count 2 2) [0]" by code_simp
  have h3: "(2::nat) = 2 ^ 1 \<and> even (2::nat) \<and> 2 \<le> length [5, 6, 7, 8 :: i32]
        \<and> valid_order (work_group_count 2 2) [0]"
    using v by simp
  have h1: "0 < length [0, 0 :: i32] \<and> 2 * (0 * 2 + 0) < (2::nat)" by simp
  have h2: "1 < length [11, 0 :: i32] \<and> \<not> 2 * (0 * 2 + 1) < (2::nat)" by simp
  note a = pair_load_in_bounds [of 0 "[0, 0]" 0 2 2 "[5, 6, 7, 8]" "[]" 1 "[0]"]
  note b = pair_load_in_bounds [of 1 "[11, 0]" 0 2 2 "[5, 6, 7, 8]" "[GRead 0, GRead 1]" 1 "[0]"]
  from a h1 have c1: "load_item 2 2 [5, 6, 7, 8] 0 0 ([0, 0], []) = Inr ([11, 0], [GRead 0, GRead 1])"
    by simp
  from b h2 have c2: "load_item 2 2 [5, 6, 7, 8] 0 1 ([11, 0], [GRead 0, GRead 1]) =
      Inr ([11, 0], [GRead 0, GRead 1])"
    by simp
  from a h3 have c3: "\<exists>B' t. parallel_for 2 2 [0] [5, 6, 7, 8] = Inr (B', t)
           \<and> (\<forall>i. GRead i \<in> set t \<longrightarrow> i < 2 \<and> i < length [5, 6, 7, 8 :: i32])
           \<and> (\<forall>i. GWrite i \<in> set t \<longrightarrow> i < length [5, 6, 7, 8 :: i32] \<and> 2 * (i * 2) < 2)
           \<and> (0 < (2::nat) \<longrightarrow> GRead (2 - 1) \<in> set t)"
    by blast
  have c4: "parallel_for 2 2 [0] [5, 6, 7, 8] = Inr ([11, 6, 7, 8], [GRead 0, GRead 1, GWrite 0])"
    by code_simp
  from h1 h2 h3 c1 c2 c3 c4 show ?thesis by blast
qed

section \<open>The single sweep of the program\<close>

text \<open>
  Claim C10. For every array the host code submits one kernel launch, and the value that
  line 122 assigns to \<open>iterationCount\<close> is not used by anything that follows. When the
  length \<open>N\<close> of the array is even and \<open>2 \<le> N \<le> 2 * work_group_size = 1024\<close>, the
  launch leaves the sum of the array in cell 0, which line 128 prints; for the array
  \<open>[1, \<dots>, 8]\<close> of the source (\<open>N = 8\<close>) the printed sum is 36.
\<close>

theorem single_sweep:
  "submitted (main_body G order arr) = [(length arr, work_group_count G (length arr))]
   \<and> iterationCount_end (main_body G order arr) = work_group_count G (length arr)
   \<and> (even (length arr) \<and> 2 \<le> length arr \<and> length arr \<le> 2 * work_group_size
        \<and> valid_order (work_group_count work_group_size (length arr)) order
       \<longrightarrow> printed (main_body work_group_size order arr) = Inr (sum_list arr))
   \<and> 2 * work_group_size = 1024
   \<and> populate 8 = [1, 2, 3, 4, 5, 6, 7, 8]
   \<and> printed (main 8 [0]) = Inr 36"
proof (intro conjI impI)
  show "submitted (main_body G order arr) = [(length arr, work_group_count G (length arr))]"
    by (simp add: main_body_def Let_def)
  show "iterationCount_end (main_body G order arr) = work_group_count G (length arr)"
    by (simp add: main_body_def Let_def)
  show "2 * work_group_size = 1024" by (simp add: work_group_size_def)
  show "populate 8 = [1, 2, 3, 4, 5, 6, 7, 8]" by (rule populate_8)
next
  assume "even (length arr) \<and> 2 \<le> length arr \<and> length arr \<le> 2 * work_group_size
        \<and> valid_order (work_group_count work_group_size (length arr)) order"
  then show "printed (main_body work_group_size order arr) = Inr (sum_list arr)"
    by (intro one_group_sum [OF work_group_size_pow]) auto
next
  have "printed (main_body work_group_size [0] (populate 8)) = Inr (sum_list (populate 8))"
    by (rule one_group_sum [OF work_group_size_pow])
       (simp_all add: populate_8 work_group_size_def work_group_count_def valid_order_def)
  then show "printed (main 8 [0]) = Inr 36"
    by (simp add: main_def populate_8)
qed

theorem single_sweep_witness:
  "even (length (populate 8)) \<and> 2 \<le> length (populate 8)
   \<and> length (populate 8) \<le> 2 * work_group_size
   \<and> valid_order (work_group_count work_group_size (length (populate 8))) [0]
   \<and> printed (main_body work_group_size [0] (populate 8)) = Inr (sum_list (populate 8))
   \<and> sum_list (populate 8) = 36"
  using single_sweep [of work_group_size "[0]" "populate 8"]
  by (simp add: populate_8 work_group_size_def work_group_count_def valid_order_def)

end
